theory Spec2Isabelle
  imports Main "HOL-Library.Sublist"
begin

section \<open>Python strings\<close>

text \<open>
  A Python \<open>str\<close> is a sequence of Unicode code points. A code point is a natural number
  here, so that the result of percent-decoding (which leaves ASCII) stays in the type.
  A literal of the source is written \<open>ustr ''...''\<close>.
\<close>

type_synonym str = "nat list"

abbreviation cp :: "char \<Rightarrow> nat" where
  "cp c \<equiv> of_char c"

abbreviation ustr :: "string \<Rightarrow> str" where
  "ustr s \<equiv> map cp s"

text \<open>
  What the standard library does on non-ASCII data is not part of the repository and is
  taken as a parameter: the UTF-8 decoder with \<open>errors='replace'\<close>, \<open>str.lower\<close> on a
  string that has a non-ASCII code point, the check of a bracketed host
  (\<open>_check_bracketed_host\<close>, which calls \<open>ipaddress.ip_address\<close>) and the NFKC check of a
  non-ASCII netloc (\<open>_checknetloc\<close>). On ASCII data the functions below compute.
\<close>

record pylib =
  utf8_decode_replace :: "nat list \<Rightarrow> str"
  unicode_lower :: "str \<Rightarrow> str"
  bracketed_host_ok :: "str \<Rightarrow> bool"
  nfkc_netloc_ok :: "str \<Rightarrow> bool"

datatype py_error = ValueError | IndexError

definition isascii :: "str \<Rightarrow> bool" where
  "isascii s = list_all (\<lambda>c. c < 128) s"

definition ascii_lower :: "nat \<Rightarrow> nat" where
  "ascii_lower c = (if 65 \<le> c \<and> c \<le> 90 then c + 32 else c)"

definition lower :: "pylib \<Rightarrow> str \<Rightarrow> str" where
  "lower L s = (if isascii s then map ascii_lower s else unicode_lower L s)"

text \<open>\<open>sub in s\<close> on strings: \<open>sub\<close> occurs in \<open>s\<close> as a contiguous run.\<close>

fun str_in :: "str \<Rightarrow> str \<Rightarrow> bool" where
  "str_in sub [] = (sub = [])"
| "str_in sub (c # cs) = (prefix sub (c # cs) \<or> str_in sub cs)"

text \<open>\<open>s.split(sep)\<close> for a separator of one code point.\<close>

fun split_on :: "nat \<Rightarrow> str \<Rightarrow> str list" where
  "split_on d [] = [[]]"
| "split_on d (c # cs) =
     (if c = d then [] # split_on d cs
      else (case split_on d cs of [] \<Rightarrow> [[c]] | p # ps \<Rightarrow> (c # p) # ps))"

text \<open>
  \<open>s.split(sep)\<close> for a separator of any positive length: scanning from the left, an
  occurrence of \<open>sep\<close> ends the current piece and is skipped whole. \<open>skip\<close> counts the code
  points of an occurrence still to be skipped, \<open>cur\<close> is the current piece, reversed.
\<close>

fun split_go :: "str \<Rightarrow> nat \<Rightarrow> str \<Rightarrow> str \<Rightarrow> str list" where
  "split_go sep skip cur [] = [rev cur]"
| "split_go sep (Suc k) cur (c # cs) = split_go sep k cur cs"
| "split_go sep 0 cur (c # cs) =
     (if prefix sep (c # cs) then rev cur # split_go sep (length sep - 1) [] cs
      else split_go sep 0 (c # cur) cs)"

definition split_str :: "str \<Rightarrow> str \<Rightarrow> str list" where
  "split_str sep s = split_go sep 0 [] s"

text \<open>\<open>s.partition(d)\<close>: the text before the first \<open>d\<close>, whether \<open>d\<close> occurs, the text after it.\<close>

definition partition_on :: "nat \<Rightarrow> str \<Rightarrow> str \<times> bool \<times> str" where
  "partition_on d s =
     (takeWhile (\<lambda>c. c \<noteq> d) s, d \<in> set s, drop 1 (dropWhile (\<lambda>c. c \<noteq> d) s))"

text \<open>\<open>sep.join(parts)\<close>.\<close>

fun join :: "str \<Rightarrow> str list \<Rightarrow> str" where
  "join sep [] = []"
| "join sep [p] = p"
| "join sep (p # q # ps) = p @ sep @ join sep (q # ps)"

text \<open>
  \<open>str.isspace\<close> of one code point (CPython's \<open>_PyUnicode_IsWhitespace\<close>), and
  \<open>s.strip()\<close>.
\<close>

definition isspace :: "nat \<Rightarrow> bool" where
  "isspace c = ((9 \<le> c \<and> c \<le> 13) \<or> (28 \<le> c \<and> c \<le> 32) \<or> c = 133 \<or> c = 160
     \<or> c = 5760 \<or> (8192 \<le> c \<and> c \<le> 8202) \<or> c = 8232 \<or> c = 8233 \<or> c = 8239
     \<or> c = 8287 \<or> c = 12288)"

definition strip :: "str \<Rightarrow> str" where
  "strip s = rev (dropWhile isspace (rev (dropWhile isspace s)))"

section \<open>urllib.parse (CPython 3.11)\<close>

subsection \<open>unquote\<close>

definition hexdig :: "nat \<Rightarrow> bool" where
  "hexdig c = ((48 \<le> c \<and> c \<le> 57) \<or> (65 \<le> c \<and> c \<le> 70) \<or> (97 \<le> c \<and> c \<le> 102))"

definition hexval :: "nat \<Rightarrow> nat" where
  "hexval c = (if c \<le> 57 then c - 48 else if c \<le> 70 then c - 55 else c - 87)"

text \<open>
  The loop of \<open>unquote_to_bytes\<close> over \<open>bits[1:]\<close>: an item that starts with two hex digits
  gives their byte and the rest of the item, any other item is kept behind a \<open>%\<close>.
\<close>

fun unquote_item :: "str \<Rightarrow> nat list" where
  "unquote_item (a # b # rest) =
     (if hexdig a \<and> hexdig b then (16 * hexval a + hexval b) # rest
      else cp CHR ''%'' # a # b # rest)"
| "unquote_item item = cp CHR ''%'' # item"

definition unquote_to_bytes :: "str \<Rightarrow> nat list" where
  "unquote_to_bytes s =
     (case split_on (cp CHR ''%'') s of
        [] \<Rightarrow> []
      | b # bits \<Rightarrow> b @ concat (map unquote_item bits))"

text \<open>\<open>bytes.decode('utf-8', 'replace')\<close>: the identity on ASCII bytes.\<close>

definition decode :: "pylib \<Rightarrow> nat list \<Rightarrow> str" where
  "decode L bs = (if isascii bs then bs else utf8_decode_replace L bs)"

text \<open>
  \<open>_asciire.split(string)\<close> cuts the string into maximal runs of ASCII and of non-ASCII
  code points; \<open>runs\<close> returns them in order, each with the flag "ASCII".
\<close>

fun runs :: "str \<Rightarrow> (bool \<times> str) list" where
  "runs [] = []"
| "runs (c # cs) =
     (case runs cs of
        [] \<Rightarrow> [(c < 128, [c])]
      | (a, r) # rs \<Rightarrow> if a = (c < 128) then (a, c # r) # rs else (c < 128, [c]) # (a, r) # rs)"

definition unquote :: "pylib \<Rightarrow> str \<Rightarrow> str" where
  "unquote L s =
     (if cp CHR ''%'' \<notin> set s then s
      else concat (map (\<lambda>(a, r). if a then decode L (unquote_to_bytes r) else r) (runs s)))"

definition unquote_plus :: "pylib \<Rightarrow> str \<Rightarrow> str" where
  "unquote_plus L s = unquote L (map (\<lambda>c. if c = cp CHR ''+'' then cp CHR '' '' else c) s)"

subsection \<open>parse_qsl and parse_qs\<close>

text \<open>
  With the defaults \<open>keep_blank_values=False\<close>, \<open>strict_parsing=False\<close>,
  \<open>separator='&'\<close>: an empty field and a field with an empty value are skipped.
\<close>

definition parse_field :: "pylib \<Rightarrow> str \<Rightarrow> (str \<times> str) list" where
  "parse_field L name_value =
     (if name_value = [] then []
      else (case partition_on (cp CHR ''='') name_value of
              (name, has_eq, val) \<Rightarrow>
                if val = [] then [] else [(unquote_plus L name, unquote_plus L val)]))"

definition parse_qsl :: "pylib \<Rightarrow> str \<Rightarrow> (str \<times> str) list" where
  "parse_qsl L qs =
     (if qs = [] then [] else concat (map (parse_field L) (split_on (cp CHR ''&'') qs)))"

text \<open>
  A \<open>dict\<close> keeps its keys in the order of their first insertion: an association list
  without repeated keys.
\<close>

fun dict_append :: "(str \<times> str list) list \<Rightarrow> str \<Rightarrow> str \<Rightarrow> (str \<times> str list) list" where
  "dict_append [] name v = [(name, [v])]"
| "dict_append ((k, vs) # d) name v =
     (if k = name then (k, vs @ [v]) # d else (k, vs) # dict_append d name v)"

definition parse_qs :: "pylib \<Rightarrow> str \<Rightarrow> (str \<times> str list) list" where
  "parse_qs L qs = foldl (\<lambda>d (name, v). dict_append d name v) [] (parse_qsl L qs)"

subsection \<open>urlsplit and urlparse\<close>

record parse_result =
  scheme :: str
  netloc :: str
  path :: str
  params :: str
  query :: str
  fragment :: str

definition scheme_char :: "nat \<Rightarrow> bool" where
  "scheme_char c = ((97 \<le> c \<and> c \<le> 122) \<or> (65 \<le> c \<and> c \<le> 90) \<or> (48 \<le> c \<and> c \<le> 57)
     \<or> c = cp CHR ''+'' \<or> c = cp CHR ''-'' \<or> c = cp CHR ''.'')"

definition ascii_alpha :: "nat \<Rightarrow> bool" where
  "ascii_alpha c = ((97 \<le> c \<and> c \<le> 122) \<or> (65 \<le> c \<and> c \<le> 90))"

text \<open>
  The scheme of \<open>urlsplit\<close>: with \<open>i = url.find(':')\<close>, when \<open>i > 0\<close>, \<open>url[0]\<close> is an ASCII
  letter and \<open>url[:i]\<close> has scheme characters only, the scheme is \<open>url[:i].lower()\<close> and the
  URL goes on behind the colon.
\<close>

definition split_scheme :: "str \<Rightarrow> str \<times> str" where
  "split_scheme url =
     (let pre = takeWhile (\<lambda>c. c \<noteq> cp CHR '':'') url in
      if cp CHR '':'' \<in> set url \<and> pre \<noteq> [] \<and> ascii_alpha (hd url) \<and> list_all scheme_char pre
      then (map ascii_lower pre, drop (Suc (length pre)) url)
      else ([], url))"

definition netloc_delim :: "nat \<Rightarrow> bool" where
  "netloc_delim c = (c = cp CHR ''/'' \<or> c = cp CHR ''?'' \<or> c = cp CHR ''#'')"

text \<open>\<open>_splitnetloc(url, 2)\<close>: the netloc runs from index 2 up to the first of \<open>/?#\<close>.\<close>

definition splitnetloc :: "str \<Rightarrow> str \<times> str" where
  "splitnetloc url =
     (takeWhile (\<lambda>c. \<not> netloc_delim c) (drop 2 url),
      dropWhile (\<lambda>c. \<not> netloc_delim c) (drop 2 url))"

text \<open>The checks of the netloc that raise \<open>ValueError\<close> in \<open>urlsplit\<close>.\<close>

definition bracket_check :: "pylib \<Rightarrow> str \<Rightarrow> bool" where
  "bracket_check L nl =
     (let lb = cp CHR ''['' \<in> set nl; rb = cp CHR '']'' \<in> set nl in
      if lb \<noteq> rb then False
      else if lb \<and> rb then
        bracketed_host_ok L
          (takeWhile (\<lambda>c. c \<noteq> cp CHR '']'') (drop 1 (dropWhile (\<lambda>c. c \<noteq> cp CHR ''['') nl)))
      else True)"

definition checknetloc :: "pylib \<Rightarrow> str \<Rightarrow> bool" where
  "checknetloc L nl = (if nl = [] \<or> isascii nl then True else nfkc_netloc_ok L nl)"

definition urlsplit :: "pylib \<Rightarrow> str \<Rightarrow> py_error + parse_result" where
  "urlsplit L url0 =
     (let url1 = dropWhile (\<lambda>c. c \<le> 32) url0;
          url2 = filter (\<lambda>c. c \<noteq> 9 \<and> c \<noteq> 13 \<and> c \<noteq> 10) url1;
          (sch, url3) = split_scheme url2;
          has_netloc = (take 2 url3 = ustr ''//'');
          (nl, url4) = (if has_netloc then splitnetloc url3 else ([], url3))
      in if has_netloc \<and> \<not> bracket_check L nl then Inl ValueError
         else
           (let (url5, frag) = (case partition_on (cp CHR ''#'') url4 of (a, _, b) \<Rightarrow> (a, b));
                (url6, qry) = (case partition_on (cp CHR ''?'') url5 of (a, _, b) \<Rightarrow> (a, b))
            in if \<not> checknetloc L nl then Inl ValueError
               else Inr \<lparr> scheme = sch, netloc = nl, path = url6, params = [],
                          query = qry, fragment = frag \<rparr>))"

definition uses_params :: "str list" where
  "uses_params = map ustr ['''', ''ftp'', ''hdl'', ''prospero'', ''http'', ''imap'',
     ''https'', ''shttp'', ''rtsp'', ''rtsps'', ''rtspu'', ''sip'', ''sips'', ''mms'',
     ''sftp'', ''tel'']"

text \<open>
  \<open>_splitparams(url)\<close>, called when \<open>;\<close> occurs in \<open>url\<close>: the parameters start at the first
  \<open>;\<close> at or behind the last \<open>/\<close> (at the first \<open>;\<close> when there is no \<open>/\<close>); when there is none
  the path is left whole. \<open>seg\<close> is the text behind the last \<open>/\<close>.
\<close>

definition splitparams :: "str \<Rightarrow> str \<times> str" where
  "splitparams url =
     (let seg = rev (takeWhile (\<lambda>c. c \<noteq> cp CHR ''/'') (rev url));
          pre = take (length url - length seg) url
      in if cp CHR '';'' \<in> set seg
         then (pre @ takeWhile (\<lambda>c. c \<noteq> cp CHR '';'') seg,
               drop 1 (dropWhile (\<lambda>c. c \<noteq> cp CHR '';'') seg))
         else (url, []))"

definition urlparse :: "pylib \<Rightarrow> str \<Rightarrow> py_error + parse_result" where
  "urlparse L url =
     (case urlsplit L url of
        Inl e \<Rightarrow> Inl e
      | Inr r \<Rightarrow>
          if scheme r \<in> set uses_params \<and> cp CHR '';'' \<in> set (path r)
          then (case splitparams (path r) of (p, ps) \<Rightarrow> Inr (r\<lparr> path := p, params := ps \<rparr>))
          else Inr r)"

section \<open>The scraper\<close>

subsection \<open>clean_url\<close>

text \<open>
  Lines 23 to 26 and 32 to 35: the URL is parsed and, when the query has the parameter
  \<open>name\<close>, replaced by the unquoted first value of it. An error carries the value that the
  variable \<open>url\<close> holds when it is raised, which is what the handler returns.
\<close>

definition unwrap_param :: "pylib \<Rightarrow> str \<Rightarrow> str \<Rightarrow> (py_error \<times> str) + str" where
  "unwrap_param L name url =
     (case urlparse L url of
        Inl e \<Rightarrow> Inl (e, url)
      | Inr parsed \<Rightarrow>
          (case map_of (parse_qs L (query parsed)) name of
             None \<Rightarrow> Inr url
           | Some [] \<Rightarrow> Inl (IndexError, url)
           | Some (v # _) \<Rightarrow> Inr (unquote L v)))"

text \<open>Lines 21 to 35: the three affiliate patterns, tried in this order.\<close>

definition unwrap_affiliate :: "pylib \<Rightarrow> str \<Rightarrow> (py_error \<times> str) + str" where
  "unwrap_affiliate L url =
     (if str_in (ustr ''api.shopmy.us/api/redirect_click'') url
      then unwrap_param L (ustr ''url'') url
      else if str_in (ustr ''anrdoezrs.net/click'') url
      then (case rev (split_str (ustr ''url='') url) of
              [] \<Rightarrow> Inl (IndexError, url)
            | u # _ \<Rightarrow> Inr (unquote L u))
      else if str_in (ustr ''click.linksynergy.com/deeplink'') url
      then unwrap_param L (ustr ''murl'') url
      else Inr url)"

definition essential_keys :: "str list" where
  "essential_keys = map ustr [''variant'', ''color'', ''size'']"

text \<open>Lines 46 and 47: the dict comprehension, in the order of \<open>params.items()\<close>.\<close>

fun essential_params :: "pylib \<Rightarrow> (str \<times> str list) list \<Rightarrow> py_error + (str \<times> str) list" where
  "essential_params L [] = Inr []"
| "essential_params L ((k, vs) # d) =
     (if lower L k \<in> set essential_keys
      then (case vs of
              [] \<Rightarrow> Inl IndexError
            | v # _ \<Rightarrow>
                (case essential_params L d of
                   Inl e \<Rightarrow> Inl e
                 | Inr r \<Rightarrow> Inr ((k, v) # r)))
      else essential_params L d)"

definition param_str :: "(str \<times> str) list \<Rightarrow> str" where
  "param_str ess = join (ustr ''&'') (map (\<lambda>(k, v). k @ ustr ''='' @ v) ess)"

definition base_url :: "parse_result \<Rightarrow> str" where
  "base_url parsed = scheme parsed @ ustr ''://'' @ netloc parsed @ path parsed"

text \<open>
  The body of the \<open>try\<close>, in two parts; \<open>Inl (e, u)\<close> is the error \<open>e\<close> raised while the
  variable \<open>url\<close> holds \<open>u\<close>. Lines 21 to 47 give the parsed URL and the kept parameters,
  lines 49 to 53 build the result from them.
\<close>

definition clean_url_parts ::
  "pylib \<Rightarrow> str \<Rightarrow> (py_error \<times> str) + (parse_result \<times> (str \<times> str) list)" where
  "clean_url_parts L url0 =
     (case unwrap_affiliate L url0 of
        Inl ex \<Rightarrow> Inl ex
      | Inr url1 \<Rightarrow>
          (let url = unquote L url1 in
           case urlparse L url of
             Inl e \<Rightarrow> Inl (e, url)
           | Inr parsed \<Rightarrow>
               (case essential_params L (parse_qs L (query parsed)) of
                  Inl e \<Rightarrow> Inl (e, url)
                | Inr ess \<Rightarrow> Inr (parsed, ess))))"

definition clean_url_try :: "pylib \<Rightarrow> str \<Rightarrow> (py_error \<times> str) + str" where
  "clean_url_try L url0 =
     (case clean_url_parts L url0 of
        Inl ex \<Rightarrow> Inl ex
      | Inr (parsed, ess) \<Rightarrow>
          if ess \<noteq> [] then Inr (base_url parsed @ ustr ''?'' @ param_str ess)
          else Inr (base_url parsed))"

text \<open>The bare \<open>except\<close> returns the variable \<open>url\<close>.\<close>

definition clean_url :: "pylib \<Rightarrow> str \<Rightarrow> str" where
  "clean_url L url = (case clean_url_try L url of Inl (e, u) \<Rightarrow> u | Inr r \<Rightarrow> r)"

subsection \<open>extract_brand_from_url_and_title\<close>

definition known_brands :: "(str \<times> str) list" where
  "known_brands =
     [(ustr ''stella-mccartney'', ustr ''Stella McCartney''),
      (ustr ''lcuppini'', ustr ''L.Cuppini''),
      (ustr ''nanushka'', ustr ''Nanushka''),
      (ustr ''havaianas'', ustr ''Havaianas''),
      (ustr ''gap'', ustr ''Gap''),
      (ustr ''jennikayne'', ustr ''Jenni Kayne''),
      (ustr ''aritzia'', ustr ''Aritzia''),
      (ustr ''jimmy-choo'', ustr ''Jimmy Choo''),
      (ustr ''hunting-season'', ustr ''Hunting Season''),
      (ustr ''cesta'', ustr ''Cesta Collective''),
      (ustr ''eliou'', [195, 8240] @ ustr ''liou''),
      (ustr ''reformation'', ustr ''Reformation''),
      (ustr ''nour-hammour'', ustr ''Nour Hammour''),
      (ustr ''khaite'', ustr ''Khaite''),
      (ustr ''staud'', ustr ''Staud''),
      (ustr ''sezane'', ustr ''Sezane''),
      (ustr ''veronica-beard'', ustr ''Veronica Beard''),
      (ustr ''tory-burch'', ustr ''Tory Burch''),
      (ustr ''shonajoy'', ustr ''Shona Joy''),
      (ustr ''anine-bing'', ustr ''Anine Bing''),
      (ustr ''saint-laurent'', ustr ''Saint Laurent''),
      (ustr ''loro-piana'', ustr ''Loro Piana''),
      (ustr ''ralph-lauren'', ustr ''Ralph Lauren''),
      (ustr ''leset'', ustr ''Le Set''),
      (ustr ''co-collections'', ustr ''CO'')]"

text \<open>
  The loops of lines 89 and 95 return the name of the first key of the table that occurs
  in the text; the loop of line 107 returns the first name whose lowercase form occurs in
  the lowercase title.
\<close>

definition brand_by_key :: "str \<Rightarrow> str option" where
  "brand_by_key text = map_option snd (find (\<lambda>(brand_key, brand_name). str_in brand_key text) known_brands)"

definition brand_by_name :: "pylib \<Rightarrow> str \<Rightarrow> str option" where
  "brand_by_name L ttl =
     find (\<lambda>brand_name. str_in (lower L brand_name) (lower L ttl)) (map snd known_brands)"

definition extract_brand_from_url_and_title :: "pylib \<Rightarrow> str \<Rightarrow> str \<Rightarrow> py_error + str" where
  "extract_brand_from_url_and_title L url ttl =
     (case urlparse L url of
        Inl e \<Rightarrow> Inl e
      | Inr parsed \<Rightarrow>
          (case brand_by_key (lower L (netloc parsed)) of
             Some brand_name \<Rightarrow> Inr brand_name
           | None \<Rightarrow>
               (case brand_by_key (lower L (path parsed)) of
                  Some brand_name \<Rightarrow> Inr brand_name
                | None \<Rightarrow>
                    if ttl \<noteq> [] \<and> ttl \<noteq> ustr ''N/A'' then
                      if cp CHR ''|'' \<in> set ttl then
                        (case split_on (cp CHR ''|'') ttl of
                           [] \<Rightarrow> Inl IndexError
                         | potential_brand # _ \<Rightarrow> Inr (strip potential_brand))
                      else
                        (case brand_by_name L ttl of
                           Some brand_name \<Rightarrow> Inr brand_name
                         | None \<Rightarrow> Inr (ustr ''N/A''))
                    else Inr (ustr ''N/A''))))"

subsection \<open>retry_with_backoff\<close>

text \<open>
  \<open>func\<close> is a call into the world \<open>'w\<close>: it returns a value or raises an \<open>Exception\<close> of
  type \<open>'e\<close>, and leaves a new world. The trace records what the wrapper does, in order:
  the calls of \<open>func\<close> (with the number of the attempt), the log lines and the sleeps.
  \<open>time.sleep\<close> raises \<open>ValueError\<close> on a negative delay. When the loop ends without a
  \<open>return\<close> the function returns \<open>None\<close>. The \<open>OverflowError\<close> of \<open>time.sleep\<close> for a delay
  beyond the range of the platform's time type is not modelled: the properties below are
  about the default delays 1 and 2, far below that range.
\<close>

datatype event = Call nat | Log_retry nat int | Sleep int

datatype 'e raised = Func_error 'e | Sleep_error

fun retry_loop ::
  "('w \<Rightarrow> ('e + 'a) \<times> 'w) \<Rightarrow> int \<Rightarrow> int \<Rightarrow> nat list \<Rightarrow> 'w \<times> event list
     \<Rightarrow> ('e raised + 'a option) \<times> 'w \<times> event list" where
  "retry_loop func max_retries initial_delay [] (w, tr) = (Inr None, w, tr)"
| "retry_loop func max_retries initial_delay (attempt # rest) (w, tr) =
     (case func w of
        (Inr v, w') \<Rightarrow> (Inr (Some v), w', tr @ [Call attempt])
      | (Inl e, w') \<Rightarrow>
          if int attempt = max_retries - 1
          then (Inl (Func_error e), w', tr @ [Call attempt])
          else
            (let delay = initial_delay * 2 ^ attempt in
             if delay < 0
             then (Inl Sleep_error, w', tr @ [Call attempt, Log_retry (attempt + 1) delay])
             else retry_loop func max_retries initial_delay rest
                    (w', tr @ [Call attempt, Log_retry (attempt + 1) delay, Sleep delay])))"

definition retry_with_backoff ::
  "('w \<Rightarrow> ('e + 'a) \<times> 'w) \<Rightarrow> int \<Rightarrow> int \<Rightarrow> 'w \<Rightarrow> ('e raised + 'a option) \<times> 'w \<times> event list" where
  "retry_with_backoff func max_retries initial_delay w =
     retry_loop func max_retries initial_delay [0 ..< nat max_retries] (w, [])"

fun sleeps :: "event list \<Rightarrow> int list" where
  "sleeps [] = []"
| "sleeps (Sleep d # es) = d # sleeps es"
| "sleeps (e # es) = sleeps es"

fun calls :: "event list \<Rightarrow> nat" where
  "calls [] = 0"
| "calls (Call n # es) = Suc (calls es)"
| "calls (e # es) = calls es"

text \<open>An operation that fails at every call, with the number of the call as its error.\<close>

definition always_fails :: "nat \<Rightarrow> (nat + unit) \<times> nat" where
  "always_fails n = (Inl n, Suc n)"

subsection \<open>save_to_csv\<close>

record product =
  title :: str
  brand :: str
  image_url :: str
  product_url :: str

datatype log_msg =
    No_products_to_save
  | Removed_duplicates int
  | Saved_unique nat str
  | First_few_rows
  | Row product

datatype log_entry = Warning log_msg | Info log_msg

text \<open>
  The world of \<open>save_to_csv\<close>: the files by name, each a list of rows of cells (the
  quoting of \<open>csv\<close> is not modelled), and the log.
\<close>

record world =
  files :: "str \<rightharpoonup> str list list"
  logged :: "log_entry list"

text \<open>The loop of lines 249 to 254, with its two variables \<open>seen\<close> and \<open>unique_products\<close>.\<close>

fun dedup_loop :: "product list \<Rightarrow> (str \<times> str) set \<Rightarrow> product list \<Rightarrow> product list" where
  "dedup_loop [] seen unique = unique"
| "dedup_loop (p # ps) seen unique =
     (let key = (title p, product_url p) in
      if key \<notin> seen then dedup_loop ps (insert key seen) (unique @ [p])
      else dedup_loop ps seen unique)"

definition unique_products :: "product list \<Rightarrow> product list" where
  "unique_products products_data = dedup_loop products_data {} []"

definition fieldnames :: "str list" where
  "fieldnames = map ustr [''title'', ''brand'', ''image_url'', ''product_url'']"

definition csv_row :: "product \<Rightarrow> str list" where
  "csv_row p = [title p, brand p, image_url p, product_url p]"

definition save_to_csv :: "product list \<Rightarrow> str \<Rightarrow> world \<Rightarrow> world" where
  "save_to_csv products_data filename w =
     (if products_data = [] then w\<lparr> logged := logged w @ [Warning No_products_to_save] \<rparr>
      else
        (let unique = unique_products products_data in
         w\<lparr> files := (files w)(filename \<mapsto> fieldnames # map csv_row unique),
            logged := logged w
              @ [Info (Removed_duplicates (int (length products_data) - int (length unique)))]
              @ [Info (Saved_unique (length unique) filename), Info First_few_rows]
              @ map (\<lambda>p. Info (Row p)) (take 5 unique) \<rparr>))"

text \<open>The records of the example: only the title and the URL are given.\<close>

definition rec_A :: product where
  "rec_A = \<lparr> title = ustr ''A'', brand = ustr ''N/A'', image_url = ustr ''N/A'',
             product_url = ustr ''u1'' \<rparr>"

definition rec_B :: product where
  "rec_B = \<lparr> title = ustr ''B'', brand = ustr ''N/A'', image_url = ustr ''N/A'',
             product_url = ustr ''u2'' \<rparr>"

definition key_of :: "product \<Rightarrow> str \<times> str" where
  "key_of p = (title p, product_url p)"

subsection \<open>Auxiliary definitions of the statements\<close>

text \<open>
  A library for the closed instances below. Their data is ASCII and has no bracketed
  host, so that no field of the library is consulted.
\<close>

definition ascii_lib :: pylib where
  "ascii_lib = \<lparr> utf8_decode_replace = (\<lambda>bs. bs), unicode_lower = (\<lambda>s. s),
                 bracketed_host_ok = (\<lambda>h. True), nfkc_netloc_ok = (\<lambda>n. True) \<rparr>"

text \<open>
  The pairs of a query with every key once, at the place of its first occurrence and with
  the value found there.
\<close>

fun first_values :: "(str \<times> str) list \<Rightarrow> (str \<times> str) list" where
  "first_values [] = []"
| "first_values ((k, v) # ps) = (k, v) # filter (\<lambda>(k', v'). k' \<noteq> k) (first_values ps)"

definition essential :: "pylib \<Rightarrow> str \<times> str \<Rightarrow> bool" where
  "essential L kv = (lower L (fst kv) \<in> set essential_keys)"

text \<open>One of the three affiliate patterns of lines 21, 27 and 31 occurs in the URL.\<close>

definition has_affiliate_marker :: "str \<Rightarrow> bool" where
  "has_affiliate_marker url =
     (str_in (ustr ''api.shopmy.us/api/redirect_click'') url
      \<or> str_in (ustr ''anrdoezrs.net/click'') url
      \<or> str_in (ustr ''click.linksynergy.com/deeplink'') url)"




text \<open>
  A kept parameter that is read back as it was written: the value is not empty, the key
  has no \<open>=\<close>, and neither has \<open>&\<close>, \<open>%\<close> or \<open>+\<close>.
\<close>

definition clean_field :: "str \<times> str \<Rightarrow> bool" where
  "clean_field kv = (snd kv \<noteq> [] \<and> cp CHR ''='' \<notin> set (fst kv) \<and> cp CHR ''&'' \<notin> set (fst kv)
     \<and> cp CHR ''&'' \<notin> set (snd kv)
     \<and> cp CHR ''%'' \<notin> set (fst kv) \<and> cp CHR ''+'' \<notin> set (fst kv)
     \<and> cp CHR ''%'' \<notin> set (snd kv) \<and> cp CHR ''+'' \<notin> set (snd kv))"

section \<open>Properties\<close>

subsection \<open>Dictionaries and the query string\<close>

lemma dict_append_keys: "fst ` set (dict_append d k v) = insert k (fst ` set d)"
  by (induction d k v rule: dict_append.induct) auto

lemma dict_append_distinct:
  "distinct (map fst d) \<Longrightarrow> distinct (map fst (dict_append d k v))"
proof (induction d k v rule: dict_append.induct)
  case (1 name v)
  then show ?case by simp
next
  case (2 k vs d name v)
  then show ?case
    using dict_append_keys [of d name v] by (auto simp: image_iff)
qed

lemma dict_append_nonempty:
  "list_all (\<lambda>(k, vs). vs \<noteq> []) d \<Longrightarrow> list_all (\<lambda>(k, vs). vs \<noteq> []) (dict_append d k v)"
  by (induction d k v rule: dict_append.induct) auto

lemma dict_append_old:
  "k \<in> fst ` set d \<Longrightarrow> list_all (\<lambda>(k, vs). vs \<noteq> []) d \<Longrightarrow>
     map (\<lambda>(k, vs). (k, hd vs)) (dict_append d k v) = map (\<lambda>(k, vs). (k, hd vs)) d"
  by (induction d k v rule: dict_append.induct) auto

lemma dict_append_new: "k \<notin> fst ` set d \<Longrightarrow> dict_append d k v = d @ [(k, [v])]"
  by (induction d k v rule: dict_append.induct) auto

lemma first_values_keys: "fst ` set (first_values ps) = fst ` set ps"
proof (induction ps rule: first_values.induct)
  case 1
  then show ?case by simp
next
  case (2 k v ps)
  have "fst ` set (filter (\<lambda>(k', v'). k' \<noteq> k) (first_values ps)) = fst ` set (first_values ps) - {k}"
    by (auto simp: image_iff)
  with 2 show ?case by auto
qed

lemma first_values_distinct: "distinct (map fst (first_values ps))"
proof (induction ps rule: first_values.induct)
  case 1
  then show ?case by simp
next
  case (2 k v ps)
  have "k \<notin> fst ` set (filter (\<lambda>(k', v'). k' \<noteq> k) (first_values ps))"
    by auto
  with 2 show ?case by (simp add: distinct_map_filter)
qed





lemma foldl_dict_append:
  "list_all (\<lambda>(k, vs). vs \<noteq> []) d \<Longrightarrow>
   list_all (\<lambda>(k, vs). vs \<noteq> []) (foldl (\<lambda>d (name, v). dict_append d name v) d ps) \<and>
   map (\<lambda>(k, vs). (k, hd vs)) (foldl (\<lambda>d (name, v). dict_append d name v) d ps) =
     map (\<lambda>(k, vs). (k, hd vs)) d @ filter (\<lambda>(k, v). k \<notin> fst ` set d) (first_values ps)"
proof (induction ps arbitrary: d rule: first_values.induct)
  case 1
  then show ?case by simp
next
  case (2 k v ps)
  let ?d = "dict_append d k v"
  have ne: "list_all (\<lambda>(k, vs). vs \<noteq> []) ?d"
    using 2(2) by (rule dict_append_nonempty)
  note ih = 2(1) [OF ne]
  show ?case
  proof (cases "k \<in> fst ` set d")
    case True
    have f: "filter (\<lambda>(a, b). a \<notin> fst ` set d) (filter (\<lambda>(k', v'). k' \<noteq> k) (first_values ps))
      = filter (\<lambda>(a, b). a \<notin> fst ` set d) (first_values ps)"
      using True by (auto simp: filter_filter intro!: filter_cong)
    show ?thesis
      using ih True f dict_append_old [OF True 2(2), of v] dict_append_keys [of d k v]
      by (simp add: insert_absorb)
  next
    case False
    have f: "filter (\<lambda>(a, b). a \<notin> fst ` set d) (filter (\<lambda>(k', v'). k' \<noteq> k) (first_values ps))
      = filter (\<lambda>(a, b). a \<notin> insert k (fst ` set d)) (first_values ps)"
      by (auto simp: filter_filter intro!: filter_cong)
    show ?thesis
      using ih False f dict_append_new [OF False, of v] dict_append_keys [of d k v]
      by simp
  qed
qed

lemma parse_qs_first_values:
  "list_all (\<lambda>(k, vs). vs \<noteq> []) (parse_qs L q) \<and>
   map (\<lambda>(k, vs). (k, hd vs)) (parse_qs L q) = first_values (parse_qsl L q)"
  using foldl_dict_append [of "[]" "parse_qsl L q"] by (simp add: parse_qs_def)

lemma essential_params_eq:
  "list_all (\<lambda>(k, vs). vs \<noteq> []) d \<Longrightarrow>
   essential_params L d = Inr (filter (essential L) (map (\<lambda>(k, vs). (k, hd vs)) d))"
  by (induction L d rule: essential_params.induct)
     (auto simp: essential_def split: list.splits)

lemma essential_params_parse_qs:
  "essential_params L (parse_qs L q) = Inr (filter (essential L) (first_values (parse_qsl L q)))"
  using parse_qs_first_values [of L q] essential_params_eq [of "parse_qs L q" L] by simp

lemma split_go_nonempty: "split_go sep k cur s \<noteq> []"
  by (induction sep k cur s rule: split_go.induct) auto

lemma urlsplit_error: "urlsplit L u = Inl e \<Longrightarrow> e = ValueError"
  by (cases e) (auto simp: urlsplit_def Let_def split: prod.splits if_splits)

lemma urlparse_error: "urlparse L u = Inl e \<Longrightarrow> e = ValueError"
  by (auto simp: urlparse_def split: sum.splits if_splits prod.splits dest: urlsplit_error)

lemma map_of_parse_qs_nonempty: "map_of (parse_qs L q) k \<noteq> Some []"
proof
  assume "map_of (parse_qs L q) k = Some []"
  then have "(k, []) \<in> set (parse_qs L q)" by (rule map_of_SomeD)
  moreover have "list_all (\<lambda>(k, vs). vs \<noteq> []) (parse_qs L q)"
    using parse_qs_first_values by blast
  ultimately show False by (auto simp: list_all_iff)
qed

lemma unwrap_param_Inl:
  "unwrap_param L name u = Inl (e, v) \<Longrightarrow> v = u \<and> e = ValueError \<and> urlparse L u = Inl ValueError"
  using map_of_parse_qs_nonempty
  by (auto simp: unwrap_param_def split: sum.splits option.splits list.splits
      dest: urlparse_error)

lemma unwrap_affiliate_Inl:
  "unwrap_affiliate L u = Inl (e, v) \<Longrightarrow> v = u \<and> e = ValueError \<and> urlparse L u = Inl ValueError"
  using split_go_nonempty [of "ustr ''url=''" 0 "[]" u]
  by (auto simp: unwrap_affiliate_def split_str_def split: if_splits list.splits
      dest: unwrap_param_Inl)

lemma unwrap_no_marker: "\<not> has_affiliate_marker u \<Longrightarrow> unwrap_affiliate L u = Inr u"
  by (simp add: has_affiliate_marker_def unwrap_affiliate_def)

lemma unquote_no_percent: "cp CHR ''%'' \<notin> set u \<Longrightarrow> unquote L u = u"
  by (simp add: unquote_def)

lemma clean_url_parts_Inl:
  assumes "clean_url_parts L u = Inl (e, v)"
  shows "e = ValueError \<and>
     ((urlparse L u = Inl ValueError \<and> v = u) \<or>
      (\<exists>u1. unwrap_affiliate L u = Inr u1 \<and> v = unquote L u1 \<and> urlparse L v = Inl ValueError))"
proof (cases "unwrap_affiliate L u")
  case (Inl ex)
  with assms have "ex = (e, v)" by (simp add: clean_url_parts_def)
  with Inl unwrap_affiliate_Inl [of L u e v] show ?thesis by simp
next
  case (Inr u1)
  show ?thesis
  proof (cases "urlparse L (unquote L u1)")
    case (Inl e')
    with Inr assms have "e = e'" "v = unquote L u1"
      by (simp_all add: clean_url_parts_def)
    with Inl Inr urlparse_error [of L "unquote L u1" e'] show ?thesis by simp
  next
    case r: (Inr parsed)
    with Inr assms show ?thesis
      by (simp add: clean_url_parts_def essential_params_parse_qs)
  qed
qed

lemma clean_url_try_Inl: "clean_url_try L u = Inl ex \<longleftrightarrow> clean_url_parts L u = Inl ex"
  by (auto simp: clean_url_try_def split: sum.splits prod.splits if_splits)

lemma clean_url_success:
  "clean_url_parts L u = Inr (parsed, ess) \<Longrightarrow>
   clean_url L u = base_url parsed @ (if ess = [] then [] else ustr ''?'' @ param_str ess)"
  by (simp add: clean_url_def clean_url_try_def)

lemma clean_url_parts_Inr:
  assumes "clean_url_parts L u = Inr (parsed, ess)"
  shows "\<exists>u1. unwrap_affiliate L u = Inr u1 \<and> urlparse L (unquote L u1) = Inr parsed \<and>
     ess = filter (essential L) (first_values (parse_qsl L (query parsed)))"
  using assms
  by (auto simp: clean_url_parts_def essential_params_parse_qs Let_def split: sum.splits)


subsection \<open>Kept parameters of clean_url\<close>












text \<open>
  C1 fails on the code at a doubly encoded value: \<open>%2526\<close> is decoded to \<open>%26\<close> by line 38
  and to \<open>&\<close> by \<open>parse_qs\<close>, and the value is re-attached as it is. The query string of
  the returned URL then has the key \<open>utm_source\<close>, which is not allow-listed.
\<close>

theorem clean_url_keeps_tracking_parameter:
  "clean_url L (ustr ''https://store.example.com/item?size=M%2526utm_source%3Dig'')
     = ustr ''https://store.example.com/item?size=M&utm_source=ig'' \<and>
   (case urlparse L (ustr ''https://store.example.com/item?size=M&utm_source=ig'') of
      Inl e \<Rightarrow> []
    | Inr p \<Rightarrow> map fst (parse_qs L (query p))) = [ustr ''size'', ustr ''utm_source'']"
  by code_simp

subsection \<open>Failure of the parse in clean_url\<close>

text \<open>
  C4, as the code has it. When the body of \<open>clean_url\<close> fails, the error is a \<open>ValueError\<close>
  of \<open>urlparse\<close> and the result is the value of the variable \<open>url\<close> at that point: the
  input itself when the affiliate wrapper of line 23 or 32 does not parse, and in every
  other case the unwrapped URL after the percent-decoding of line 38, which is the URL
  that \<open>urlparse\<close> rejects. For an input with no affiliate pattern this is the
  percent-decoded input, and the input itself when it has no \<open>%\<close>.
\<close>

theorem clean_url_failure_value:
  assumes "clean_url_try L u = Inl (e, v)"
  shows "clean_url L u = v \<and> e = ValueError \<and>
     (case unwrap_affiliate L u of
        Inl ex \<Rightarrow> v = u \<and> urlparse L u = Inl ValueError
      | Inr u1 \<Rightarrow> v = unquote L u1 \<and> urlparse L (unquote L u1) = Inl ValueError) \<and>
     (\<not> has_affiliate_marker u \<longrightarrow> v = unquote L u) \<and>
     (\<not> has_affiliate_marker u \<and> cp CHR ''%'' \<notin> set u \<longrightarrow> v = u)"
proof -
  from assms have p: "clean_url_parts L u = Inl (e, v)"
    by (simp add: clean_url_try_Inl)
  have r: "clean_url L u = v"
    using assms by (simp add: clean_url_def)
  have ev: "e = ValueError"
    using clean_url_parts_Inl [OF p] by simp
  have c: "case unwrap_affiliate L u of
        Inl ex \<Rightarrow> v = u \<and> urlparse L u = Inl ValueError
      | Inr u1 \<Rightarrow> v = unquote L u1 \<and> urlparse L (unquote L u1) = Inl ValueError"
  proof (cases "unwrap_affiliate L u")
    case (Inl ex)
    with p have "ex = (e, v)" by (simp add: clean_url_parts_def)
    with Inl unwrap_affiliate_Inl [of L u e v] show ?thesis by simp
  next
    case (Inr u1)
    with p ev show ?thesis
      by (auto simp: clean_url_parts_def Let_def essential_params_parse_qs split: sum.splits
          dest: urlparse_error)
  qed
  have n: "v = unquote L u" if "\<not> has_affiliate_marker u"
    using c unwrap_no_marker [OF that, of L] by simp
  have "v = u" if "\<not> has_affiliate_marker u" "cp CHR ''%'' \<notin> set u"
    using n [OF that(1)] unquote_no_percent [OF that(2), of L] by simp
  with c r ev n show ?thesis by blast
qed


theorem clean_url_failure_value_witness:
  "clean_url ascii_lib (ustr ''http://[x%41'') = ustr ''http://[xA'' \<and>
   urlparse ascii_lib (ustr ''http://[xA'') = Inl ValueError"
proof -
  have h: "clean_url_try ascii_lib (ustr ''http://[x%41'') = Inl (ValueError, ustr ''http://[xA'')"
    by code_simp
  have w: "unwrap_affiliate ascii_lib (ustr ''http://[x%41'') = Inr (ustr ''http://[x%41'')"
    by code_simp
  have q: "unquote ascii_lib (ustr ''http://[x%41'') = ustr ''http://[xA''"
    by code_simp
  show ?thesis
    using clean_url_failure_value [OF h] w q by simp
qed

text \<open>
  C4, as it is stated, fails: an affiliate link around a target that does not parse is
  answered by the decoded target, not by the input.
\<close>

theorem clean_url_failure_not_input:
  "clean_url_try ascii_lib (ustr ''https://api.shopmy.us/api/redirect_click?url=http%3A%2F%2F%5Bx'')
     = Inl (ValueError, ustr ''http://[x'') \<and>
   clean_url ascii_lib (ustr ''https://api.shopmy.us/api/redirect_click?url=http%3A%2F%2F%5Bx'')
     = ustr ''http://[x''"
  by code_simp


subsection \<open>Brand inference\<close>








subsection \<open>The end-to-end example of clean_url\<close>

text \<open>
  C2. On the affiliate link of the example, \<open>clean_url\<close> returns the inner target with the
  wrapper removed, the target percent-decoded, \<open>utm_source\<close> dropped and \<open>variant=red\<close> kept.
  No non-ASCII data occurs, so this holds whatever the library does there.
\<close>

theorem clean_url_example:
  "clean_url L (ustr ''https://api.shopmy.us/api/redirect_click?url=https%3A%2F%2Fstore.example.com%2Fitem%3Fvariant%3Dred%26utm_source%3Dig'')
     = ustr ''https://store.example.com/item?variant=red''"
  by code_simp

subsection \<open>Substring matching of brand keys\<close>

text \<open>
  C10. The host \<open>singapore.example.com\<close> contains the key \<open>gap\<close> inside a longer word, and the
  brand inferred for it is \<open>Gap\<close>, whatever the title: the match is containment, not a
  match of tokens.
\<close>

theorem brand_substring_match:
  "extract_brand_from_url_and_title L (ustr ''https://singapore.example.com/'') ttl
     = Inr (ustr ''Gap'')"
  by code_simp

subsection \<open>Deduplication in save_to_csv\<close>

text \<open>The accumulator of the loop only grows at its end.\<close>

lemma dedup_loop_acc: "dedup_loop xs seen acc = acc @ dedup_loop xs seen []"
proof (induction xs arbitrary: seen acc)
  case Nil
  then show ?case by simp
next
  case (Cons p ps)
  show ?case
    using Cons.IH [of "insert (title p, product_url p) seen" "acc @ [p]"]
      Cons.IH [of "insert (title p, product_url p) seen" "[p]"]
      Cons.IH [of seen acc]
    by (simp add: Let_def)
qed

lemma dedup_loop_Cons:
  "dedup_loop (p # ps) seen [] =
     (if key_of p \<in> seen then dedup_loop ps seen []
      else p # dedup_loop ps (insert (key_of p) seen) [])"
  using dedup_loop_acc [of ps "insert (key_of p) seen" "[p]"]
  by (simp add: Let_def key_of_def)

lemma dedup_loop_keys:
  "key_of ` set (dedup_loop xs seen []) = key_of ` set xs - seen"
  by (induction xs arbitrary: seen) (auto simp: dedup_loop_Cons simp del: dedup_loop.simps(2))

lemma dedup_loop_distinct: "distinct (map key_of (dedup_loop xs seen []))"
proof (induction xs arbitrary: seen)
  case Nil
  then show ?case by simp
next
  case (Cons p ps)
  have "key_of p \<notin> key_of ` set (dedup_loop ps (insert (key_of p) seen) [])"
    unfolding dedup_loop_keys by simp
  with Cons show ?case by (simp add: dedup_loop_Cons del: dedup_loop.simps(2))
qed

lemma dedup_loop_subseq: "subseq (dedup_loop xs seen []) xs"
  by (induction xs arbitrary: seen) (auto simp: dedup_loop_Cons simp del: dedup_loop.simps(2))

lemma dedup_loop_first:
  "p \<in> set (dedup_loop xs seen []) \<Longrightarrow> find (\<lambda>q. key_of q = key_of p) xs = Some p"
proof (induction xs arbitrary: seen)
  case Nil
  then show ?case by simp
next
  case (Cons x xs)
  show ?case
  proof (cases "p = x")
    case True
    then show ?thesis by simp
  next
    case False
    have ne: "key_of x \<noteq> key_of p"
    proof (cases "key_of x \<in> seen")
      case True
      with Cons.prems have "key_of p \<in> key_of ` set (dedup_loop xs seen [])"
        by (simp add: dedup_loop_Cons del: dedup_loop.simps(2))
      then have "key_of p \<notin> seen" unfolding dedup_loop_keys by simp
      with True show ?thesis by auto
    next
      case f: False
      with Cons.prems False
      have "key_of p \<in> key_of ` set (dedup_loop xs (insert (key_of x) seen) [])"
        by (simp add: dedup_loop_Cons del: dedup_loop.simps(2))
      then show ?thesis unfolding dedup_loop_keys by auto
    qed
    from Cons.prems False obtain s where "p \<in> set (dedup_loop xs s [])"
      by (auto simp: dedup_loop_Cons simp del: dedup_loop.simps(2) split: if_splits)
    from Cons.IH [OF this] ne show ?thesis by simp
  qed
qed

text \<open>
  C6. The rows that \<open>save_to_csv\<close> writes are \<open>unique_products\<close> of its input. Their
  (title, product_url) pairs are distinct and are exactly the pairs of the input; each
  kept record is the first record of the input with its pair; the kept records are a
  subsequence of the input, so the order of first appearance is kept; for a non-empty
  input the file holds the header and these rows, and the number logged as removed is
  the length of the input minus the number of rows. On the input of the example (A/u1,
  A/u1, B/u2) two rows are kept in the original order and 1 duplicate is logged.
\<close>

theorem save_to_csv_dedup:
  "distinct (map key_of (unique_products xs)) \<and>
   set (map key_of (unique_products xs)) = set (map key_of xs) \<and>
   (\<forall>p \<in> set (unique_products xs). find (\<lambda>q. key_of q = key_of p) xs = Some p) \<and>
   subseq (unique_products xs) xs \<and>
   (xs \<noteq> [] \<longrightarrow>
      files (save_to_csv xs fn w) fn = Some (fieldnames # map csv_row (unique_products xs)) \<and>
      Info (Removed_duplicates (int (length xs) - int (length (unique_products xs))))
        \<in> set (logged (save_to_csv xs fn w))) \<and>
   unique_products [rec_A, rec_A, rec_B] = [rec_A, rec_B] \<and>
   Info (Removed_duplicates 1) \<in> set (logged (save_to_csv [rec_A, rec_A, rec_B] fn w))"
proof -
  have ex: "unique_products [rec_A, rec_A, rec_B] = [rec_A, rec_B]"
    by (simp add: unique_products_def rec_A_def rec_B_def)
  have exlog: "Info (Removed_duplicates 1) \<in> set (logged (save_to_csv [rec_A, rec_A, rec_B] fn w))"
    by (simp add: save_to_csv_def ex Let_def)
  have d: "distinct (map key_of (unique_products xs))"
    unfolding unique_products_def by (rule dedup_loop_distinct)
  have k: "set (map key_of (unique_products xs)) = set (map key_of xs)"
    using dedup_loop_keys [of xs "{}"] by (simp add: unique_products_def)
  have f: "\<forall>p \<in> set (unique_products xs). find (\<lambda>q. key_of q = key_of p) xs = Some p"
    unfolding unique_products_def by (blast intro: dedup_loop_first)
  have s: "subseq (unique_products xs) xs"
    unfolding unique_products_def by (rule dedup_loop_subseq)
  have w: "xs \<noteq> [] \<longrightarrow>
      files (save_to_csv xs fn w) fn = Some (fieldnames # map csv_row (unique_products xs)) \<and>
      Info (Removed_duplicates (int (length xs) - int (length (unique_products xs))))
        \<in> set (logged (save_to_csv xs fn w))"
    by (simp add: save_to_csv_def Let_def)
  from ex exlog d k f s w show ?thesis by blast
qed

theorem save_to_csv_dedup_witness:
  "find (\<lambda>q. key_of q = key_of rec_A) [rec_A, rec_A, rec_B] = Some rec_A \<and>
   find (\<lambda>q. key_of q = key_of rec_B) [rec_A, rec_A, rec_B] = Some rec_B \<and>
   length (unique_products [rec_A, rec_A, rec_B]) = 2 \<and>
   files (save_to_csv [rec_A, rec_A, rec_B] (ustr ''shopmy_products.csv'') \<lparr>files = Map.empty, logged = []\<rparr>)
     (ustr ''shopmy_products.csv'') = Some [fieldnames, csv_row rec_A, csv_row rec_B]"
  using save_to_csv_dedup [of "[rec_A, rec_A, rec_B]" "ustr ''shopmy_products.csv''"
      "\<lparr>files = Map.empty, logged = []\<rparr>"]
  by simp

subsection \<open>The empty input of save_to_csv\<close>

text \<open>
  C7. On an empty sequence \<open>save_to_csv\<close> leaves every file as it is and adds one warning
  to the log; it returns normally (the model is total and has no error result).
\<close>

theorem save_to_csv_empty:
  "files (save_to_csv [] fn w) = files w \<and>
   logged (save_to_csv [] fn w) = logged w @ [Warning No_products_to_save]"
  by (simp add: save_to_csv_def)

subsection \<open>The retry wrapper\<close>

lemma retry_three_attempts:
  "retry_with_backoff func 3 1 w =
     (case func w of
        (Inr v, w1) \<Rightarrow> (Inr (Some v), w1, [Call 0])
      | (Inl e1, w1) \<Rightarrow>
          (case func w1 of
             (Inr v, w2) \<Rightarrow> (Inr (Some v), w2, [Call 0, Log_retry 1 1, Sleep 1, Call 1])
           | (Inl e2, w2) \<Rightarrow>
               (case func w2 of
                  (Inr v, w3) \<Rightarrow>
                    (Inr (Some v), w3,
                     [Call 0, Log_retry 1 1, Sleep 1, Call 1, Log_retry 2 2, Sleep 2, Call 2])
                | (Inl e3, w3) \<Rightarrow>
                    (Inl (Func_error e3), w3,
                     [Call 0, Log_retry 1 1, Sleep 1, Call 1, Log_retry 2 2, Sleep 2, Call 2]))))"
proof -
  have r: "[0 ..< nat 3] = [0, 1, 2]"
    by (simp add: upt_rec)
  show ?thesis
    unfolding retry_with_backoff_def r
    by (simp split: prod.splits sum.splits)
qed

text \<open>
  C8, as the code has it. With the defaults (3 retries, 1 second) the wrapper calls the
  operation at most three times; a success ends it at once with the value of that call;
  it sleeps 1 second behind the first failure and 2 seconds behind the second, and the
  third failure is raised at once with the exception of the third call, without a sleep:
  no sleep of 4 seconds exists.
\<close>

theorem retry_default_behaviour:
  "retry_with_backoff func 3 1 w =
     (case func w of
        (Inr v, w1) \<Rightarrow> (Inr (Some v), w1, [Call 0])
      | (Inl e1, w1) \<Rightarrow>
          (case func w1 of
             (Inr v, w2) \<Rightarrow> (Inr (Some v), w2, [Call 0, Log_retry 1 1, Sleep 1, Call 1])
           | (Inl e2, w2) \<Rightarrow>
               (case func w2 of
                  (Inr v, w3) \<Rightarrow>
                    (Inr (Some v), w3,
                     [Call 0, Log_retry 1 1, Sleep 1, Call 1, Log_retry 2 2, Sleep 2, Call 2])
                | (Inl e3, w3) \<Rightarrow>
                    (Inl (Func_error e3), w3,
                     [Call 0, Log_retry 1 1, Sleep 1, Call 1, Log_retry 2 2, Sleep 2, Call 2]))))"
  by (rule retry_three_attempts)

text \<open>
  C8, as it is stated, fails: when all three attempts fail the sleeps are 1 and 2 seconds
  only, where the claim lists 1, 2 and 4 seconds.
\<close>

theorem retry_no_third_sleep:
  "sleeps (snd (snd (retry_with_backoff always_fails 3 1 0))) = [1, 2] \<and>
   calls (snd (snd (retry_with_backoff always_fails 3 1 0))) = 3 \<and>
   fst (retry_with_backoff always_fails 3 1 0) = Inl (Func_error 2)"
  by (simp add: retry_three_attempts always_fails_def)

subsection \<open>Cleaning a cleaned URL\<close>

lemma takeWhile_append_stop:
  "q = [] \<or> \<not> P (hd q) \<Longrightarrow> takeWhile P (xs @ q) = takeWhile P xs"
  by (induction xs) (auto simp: takeWhile_eq_Nil_iff)

lemma dropWhile_append_stop:
  "q = [] \<or> \<not> P (hd q) \<Longrightarrow> dropWhile P (xs @ q) = dropWhile P xs @ q"
  by (induction xs) (auto simp: dropWhile_eq_self_iff)

lemma split_on_notin: "d \<notin> set f \<Longrightarrow> split_on d f = [f]"
  by (induction f) auto

lemma split_on_append:
  "d \<notin> set f \<Longrightarrow> split_on d (f @ d # rest) = f # split_on d rest"
  by (induction f) auto

lemma split_on_join:
  "fs \<noteq> [] \<Longrightarrow> \<forall>f \<in> set fs. d \<notin> set f \<Longrightarrow> split_on d (join [d] fs) = fs"
  by (induction "[d]" fs rule: join.induct) (auto simp: split_on_notin split_on_append)

lemma join_eq_Nil: "join sep fs = [] \<Longrightarrow> \<forall>f \<in> set fs. f = []"
  by (induction sep fs rule: join.induct) auto

lemma unquote_plus_id:
  "cp CHR ''%'' \<notin> set s \<Longrightarrow> cp CHR ''+'' \<notin> set s \<Longrightarrow> unquote_plus L s = s"
proof -
  assume a: "cp CHR ''%'' \<notin> set s" and b: "cp CHR ''+'' \<notin> set s"
  have "map (\<lambda>c. if c = cp CHR ''+'' then cp CHR '' '' else c) s = s"
    using b by (intro map_idI) auto
  with a show ?thesis by (simp add: unquote_plus_def unquote_def)
qed

lemma parse_field_pair:
  assumes "v \<noteq> []" "cp CHR ''='' \<notin> set k"
    "cp CHR ''%'' \<notin> set k" "cp CHR ''+'' \<notin> set k"
    "cp CHR ''%'' \<notin> set v" "cp CHR ''+'' \<notin> set v"
  shows "parse_field L (k @ ustr ''='' @ v) = [(k, v)]"
proof -
  have t: "takeWhile (\<lambda>c. c \<noteq> cp CHR ''='') (k @ cp CHR ''='' # v) = k"
    using assms(2) by (subst takeWhile_append2) auto
  have d: "dropWhile (\<lambda>c. c \<noteq> cp CHR ''='') (k @ cp CHR ''='' # v) = cp CHR ''='' # v"
    using assms(2) by (subst dropWhile_append2) auto
  show ?thesis
    using assms t d unquote_plus_id [of k L] unquote_plus_id [of v L]
    by (simp add: parse_field_def partition_on_def)
qed

lemma parse_qsl_param_str:
  assumes "list_all clean_field ess"
  shows "parse_qsl L (param_str ess) = ess"
proof (cases "ess = []")
  case True
  then show ?thesis by (simp add: parse_qsl_def param_str_def)
next
  case False
  let ?fs = "map (\<lambda>(k, v). k @ ustr ''='' @ v) ess"
  have ne: "param_str ess \<noteq> []"
  proof
    assume "param_str ess = []"
    then have "\<forall>f \<in> set ?fs. f = []" unfolding param_str_def by (rule join_eq_Nil)
    with False show False by (cases ess) auto
  qed
  have amp: "\<forall>f \<in> set ?fs. cp CHR ''&'' \<notin> set f"
    using assms by (auto simp: list_all_iff clean_field_def)
  have sp: "split_on (cp CHR ''&'') (param_str ess) = ?fs"
    using split_on_join [of ?fs "cp CHR ''&''"] False amp by (simp add: param_str_def)
  have "parse_field L (k @ ustr ''='' @ v) = [(k, v)]" if "(k, v) \<in> set ess" for k v
  proof -
    from that assms have "clean_field (k, v)" by (simp add: list_all_iff)
    then show ?thesis
      unfolding clean_field_def by (intro parse_field_pair) simp_all
  qed
  then have pf: "map (parse_field L) ?fs = map (\<lambda>kv. [kv]) ess"
    by (auto simp: comp_def)
  have "parse_qsl L (param_str ess) = concat (map (parse_field L) ?fs)"
    using ne sp by (simp add: parse_qsl_def)
  also have "\<dots> = concat (map (\<lambda>kv. [kv]) ess)"
    by (simp only: pf)
  also have "\<dots> = ess"
    by (induction ess) simp_all
  finally show ?thesis .
qed

lemma first_values_distinct_id: "distinct (map fst ps) \<Longrightarrow> first_values ps = ps"
proof (induction ps rule: first_values.induct)
  case 1
  then show ?case by simp
next
  case (2 k v ps)
  then have "first_values ps = ps" by simp
  moreover have "filter (\<lambda>(k', v'). k' \<noteq> k) ps = ps"
    using 2(2) by (intro filter_True) force
  ultimately show ?case by simp
qed

lemma scheme_char_props:
  "scheme_char c \<Longrightarrow> scheme_char (ascii_lower c) \<and> ascii_lower (ascii_lower c) = ascii_lower c
     \<and> ascii_lower c \<noteq> cp CHR '':''"
  by (auto simp: scheme_char_def ascii_lower_def)

lemma ascii_alpha_lower: "ascii_alpha c \<Longrightarrow> ascii_alpha (ascii_lower c)"
  by (auto simp: ascii_alpha_def ascii_lower_def)

lemma split_scheme_shape:
  assumes "split_scheme u = (s, rest)"
  shows "s = [] \<or> (ascii_alpha (hd s) \<and> list_all scheme_char s \<and> map ascii_lower s = s)"
proof (cases "s = []")
  case True
  then show ?thesis by simp
next
  case False
  let ?pre = "takeWhile (\<lambda>c. c \<noteq> cp CHR '':'') u"
  from assms False have c: "?pre \<noteq> []" "ascii_alpha (hd u)" "list_all scheme_char ?pre"
    and s: "s = map ascii_lower ?pre"
    by (auto simp: split_scheme_def Let_def split: if_splits)
  from c(1) have "hd ?pre = hd u" by (cases u) (auto split: if_splits)
  with c s have "ascii_alpha (hd s)" by (simp add: hd_map ascii_alpha_lower)
  moreover have "list_all scheme_char s"
    using c(3) unfolding s by (auto simp: list_all_iff scheme_char_props)
  moreover have "map ascii_lower s = s"
    using c(3) unfolding s by (auto simp: list_all_iff scheme_char_props)
  ultimately show ?thesis by simp
qed

lemma split_scheme_rebuilt:
  assumes "s \<noteq> []" "ascii_alpha (hd s)" "list_all scheme_char s" "map ascii_lower s = s"
  shows "split_scheme (s @ cp CHR '':'' # rest) = (s, rest)"
proof -
  have n: "\<forall>c \<in> set s. c \<noteq> cp CHR '':''"
    using assms(3) by (auto simp: list_all_iff scheme_char_def)
  then have t: "takeWhile (\<lambda>c. c \<noteq> cp CHR '':'') (s @ cp CHR '':'' # rest) = s"
    by (subst takeWhile_append2) auto
  have h: "hd (s @ cp CHR '':'' # rest) = hd s"
    using assms(1) by simp
  show ?thesis
    unfolding split_scheme_def Let_def t h using assms by simp
qed

lemma urlsplit_shape:
  assumes "urlsplit L u = Inr r"
  shows "cp CHR ''?'' \<notin> set (path r)" "\<forall>c \<in> set (netloc r). \<not> netloc_delim c"
    "scheme r = [] \<or> (ascii_alpha (hd (scheme r)) \<and> list_all scheme_char (scheme r)
       \<and> map ascii_lower (scheme r) = scheme r)"
proof -
  let ?url2 = "filter (\<lambda>c. c \<noteq> 9 \<and> c \<noteq> 13 \<and> c \<noteq> 10) (dropWhile (\<lambda>c. c \<le> 32) u)"
  obtain sch url3 where ss: "split_scheme ?url2 = (sch, url3)" by (cases "split_scheme ?url2")
  from assms ss have "scheme r = sch"
    by (auto simp: urlsplit_def Let_def split: if_splits prod.splits)
  with split_scheme_shape [OF ss]
  show "scheme r = [] \<or> (ascii_alpha (hd (scheme r)) \<and> list_all scheme_char (scheme r)
       \<and> map ascii_lower (scheme r) = scheme r)" by simp
  from assms ss show "cp CHR ''?'' \<notin> set (path r)"
    by (auto simp: urlsplit_def Let_def partition_on_def split: if_splits prod.splits
        dest: set_takeWhileD)
  from assms ss show "\<forall>c \<in> set (netloc r). \<not> netloc_delim c"
    by (auto simp: urlsplit_def Let_def splitnetloc_def split: if_splits prod.splits
        dest: set_takeWhileD)
qed

lemma takeWhile_dropWhile_Nil: "takeWhile P (dropWhile P xs) = []"
  by (induction xs) auto

lemma takeWhile_append_dropWhile:
  "\<forall>x \<in> set a. P x \<Longrightarrow> takeWhile P (a @ dropWhile P xs) = a"
  by (induction a) (simp_all add: takeWhile_dropWhile_Nil)

lemma last_segment_append:
  "cp CHR ''/'' \<in> set d \<Longrightarrow>
   takeWhile (\<lambda>c. c \<noteq> cp CHR ''/'') (rev (a @ d)) = takeWhile (\<lambda>c. c \<noteq> cp CHR ''/'') (rev d)"
proof -
  assume "cp CHR ''/'' \<in> set d"
  then have "takeWhile (\<lambda>c. c \<noteq> cp CHR ''/'') (rev d @ rev a)
     = takeWhile (\<lambda>c. c \<noteq> cp CHR ''/'') (rev d)"
    by (intro takeWhile_append1 [where x = "cp CHR ''/''"]) auto
  then show ?thesis by simp
qed

lemma splitparams_noop:
  "cp CHR '';'' \<notin> set (takeWhile (\<lambda>c. c \<noteq> cp CHR ''/'') (rev p)) \<Longrightarrow> splitparams p = (p, [])"
  by (simp add: splitparams_def Let_def)

lemma splitparams_segment:
  "cp CHR '';'' \<notin> set (takeWhile (\<lambda>c. c \<noteq> cp CHR ''/'') (rev (fst (splitparams p))))"
proof (cases "cp CHR '';'' \<in> set (takeWhile (\<lambda>c. c \<noteq> cp CHR ''/'') (rev p))")
  case False
  then show ?thesis by (simp add: splitparams_noop)
next
  case True
  let ?P = "\<lambda>c. c \<noteq> cp CHR ''/''"
  let ?seg = "rev (takeWhile ?P (rev p))"
  let ?t = "takeWhile (\<lambda>c. c \<noteq> cp CHR '';'') ?seg"
  have "drop (length (takeWhile ?P (rev p))) (rev p) = dropWhile ?P (rev p)"
    by (simp add: dropWhile_eq_drop)
  then have pre: "take (length p - length ?seg) p = rev (dropWhile ?P (rev p))"
    using rev_drop [of "length (takeWhile ?P (rev p))" "rev p"] by simp
  have f: "fst (splitparams p) = rev (dropWhile ?P (rev p)) @ ?t"
    using True pre by (simp add: splitparams_def Let_def)
  have "\<forall>c \<in> set (rev ?t). ?P c"
    by (auto dest!: set_takeWhileD)
  then have "takeWhile ?P (rev ?t @ dropWhile ?P (rev p)) = rev ?t"
    by (rule takeWhile_append_dropWhile)
  then have "takeWhile ?P (rev (fst (splitparams p))) = rev ?t"
    unfolding f by simp
  moreover have "cp CHR '';'' \<notin> set (rev ?t)"
    by (auto dest: set_takeWhileD)
  ultimately show ?thesis by simp
qed

lemma splitparams_subset: "set (fst (splitparams p)) \<subseteq> set p"
proof -
  have "set (take n p) \<subseteq> set p" for n by (rule set_take_subset)
  then show ?thesis
    by (auto simp: splitparams_def Let_def dest!: set_takeWhileD)
qed

lemma urlparse_shape:
  assumes "urlparse L u = Inr p"
  shows "cp CHR ''?'' \<notin> set (path p)" "\<forall>c \<in> set (netloc p). \<not> netloc_delim c"
    "scheme p = [] \<or> (ascii_alpha (hd (scheme p)) \<and> list_all scheme_char (scheme p)
       \<and> map ascii_lower (scheme p) = scheme p)"
    "scheme p \<in> set uses_params \<Longrightarrow>
       cp CHR '';'' \<notin> set (takeWhile (\<lambda>c. c \<noteq> cp CHR ''/'') (rev (path p)))"
proof -
  from assms obtain r where r: "urlsplit L u = Inr r"
    by (auto simp: urlparse_def split: sum.splits)
  note sh = urlsplit_shape [OF r]
  from assms r have nl: "netloc p = netloc r" and sc: "scheme p = scheme r"
    by (auto simp: urlparse_def split: if_splits prod.splits)
  from assms r have pa: "path p = path r \<or>
      (scheme r \<in> set uses_params \<and> cp CHR '';'' \<in> set (path r) \<and> path p = fst (splitparams (path r)))"
    by (auto simp: urlparse_def split: if_splits prod.splits)
  from pa sh(1) splitparams_subset [of "path r"] show "cp CHR ''?'' \<notin> set (path p)" by auto
  from nl sh(2) show "\<forall>c \<in> set (netloc p). \<not> netloc_delim c" by simp
  from sc sh(3) show "scheme p = [] \<or> (ascii_alpha (hd (scheme p)) \<and> list_all scheme_char (scheme p)
       \<and> map ascii_lower (scheme p) = scheme p)" by simp
  show "cp CHR '';'' \<notin> set (takeWhile (\<lambda>c. c \<noteq> cp CHR ''/'') (rev (path p)))"
    if u: "scheme p \<in> set uses_params"
  proof (cases "cp CHR '';'' \<in> set (path r)")
    case True
    with assms r u sc have "path p = fst (splitparams (path r))"
      by (auto simp: urlparse_def split: if_splits prod.splits)
    then show ?thesis by (simp only: splitparams_segment not_False_eq_True)
  next
    case False
    with pa have "path p = path r" by auto
    with False show ?thesis by (auto dest: set_takeWhileD)
  qed
qed

lemma takeWhile_all: "\<forall>x \<in> set xs. P x \<Longrightarrow> takeWhile P xs = xs"
  by (induction xs) auto

lemma dropWhile_all: "\<forall>x \<in> set xs. P x \<Longrightarrow> dropWhile P xs = []"
  by (induction xs) auto

lemma partition_on_absent: "d \<notin> set xs \<Longrightarrow> partition_on d xs = (xs, False, [])"
proof -
  assume a: "d \<notin> set xs"
  then have al: "\<forall>x \<in> set xs. x \<noteq> d" by auto
  have t: "takeWhile (\<lambda>c. c \<noteq> d) xs = xs"
    using al by (rule takeWhile_all)
  have dr: "dropWhile (\<lambda>c. c \<noteq> d) xs = []"
    using al by (rule dropWhile_all)
  show ?thesis
    unfolding partition_on_def t dr using a by simp
qed

lemma partition_on_query:
  assumes "d \<notin> set xs" "q = [] \<or> hd q = d"
  shows "partition_on d (xs @ q) = (xs, q \<noteq> [], drop 1 q)"
proof -
  from assms(2) have st: "q = [] \<or> \<not> (\<lambda>c. c \<noteq> d) (hd q)" by simp
  from assms(1) have al: "\<forall>x \<in> set xs. x \<noteq> d" by auto
  have t: "takeWhile (\<lambda>c. c \<noteq> d) (xs @ q) = xs"
    using takeWhile_append_stop [where P = "\<lambda>c. c \<noteq> d" and q = q and xs = xs, OF st]
      takeWhile_all [where P = "\<lambda>c. c \<noteq> d", OF al] by simp
  have dr: "dropWhile (\<lambda>c. c \<noteq> d) (xs @ q) = q"
    using dropWhile_append_stop [where P = "\<lambda>c. c \<noteq> d" and q = q and xs = xs, OF st]
      dropWhile_all [where P = "\<lambda>c. c \<noteq> d", OF al] by simp
  have m: "d \<in> set (xs @ q) \<longleftrightarrow> q \<noteq> []"
    using assms by (cases q) auto
  show ?thesis
    unfolding partition_on_def t dr m by simp
qed

lemma urlsplit_rebuilt:
  assumes sch: "s \<noteq> []" "ascii_alpha (hd s)" "list_all scheme_char s" "map ascii_lower s = s"
    and np: "cp CHR ''?'' \<notin> set np" "cp CHR ''#'' \<notin> set np"
    and q: "q = [] \<or> hd q = cp CHR ''?''" "cp CHR ''#'' \<notin> set q"
    and ctl: "\<forall>c \<in> set (np @ q). c \<noteq> 9 \<and> c \<noteq> 13 \<and> c \<noteq> 10"
  shows "urlsplit L (s @ ustr ''://'' @ np @ q) =
     (if \<not> bracket_check L (takeWhile (\<lambda>c. \<not> netloc_delim c) np)
         \<or> \<not> checknetloc L (takeWhile (\<lambda>c. \<not> netloc_delim c) np)
      then Inl ValueError
      else Inr \<lparr> scheme = s, netloc = takeWhile (\<lambda>c. \<not> netloc_delim c) np,
                 path = dropWhile (\<lambda>c. \<not> netloc_delim c) np, params = [],
                 query = drop 1 q, fragment = [] \<rparr>)"
proof -
  let ?D = "\<lambda>c. \<not> netloc_delim c"
  let ?rest = "ustr ''//'' @ np @ q"
  let ?u = "s @ cp CHR '':'' # ?rest"
  have sc: "\<forall>c \<in> set s. 32 < c \<and> c \<noteq> 9 \<and> c \<noteq> 13 \<and> c \<noteq> 10"
    using sch(3) by (auto simp: list_all_iff scheme_char_def)
  have u1: "dropWhile (\<lambda>c. c \<le> 32) ?u = ?u"
    using sch(1) sc by (cases s) auto
  have u2: "filter (\<lambda>c. c \<noteq> 9 \<and> c \<noteq> 13 \<and> c \<noteq> 10) ?u = ?u"
    using sc ctl by (intro filter_True) auto
  have ss: "split_scheme ?u = (s, ?rest)"
    using sch by (rule split_scheme_rebuilt)
  have st: "q = [] \<or> \<not> ?D (hd q)"
    using q(1) by (auto simp: netloc_delim_def)
  have sn: "splitnetloc ?rest = (takeWhile ?D np, dropWhile ?D np @ q)"
    using takeWhile_append_stop [where P = ?D and q = q and xs = np, OF st]
      dropWhile_append_stop [where P = ?D and q = q and xs = np, OF st]
    by (simp add: splitnetloc_def)
  have dn: "set (dropWhile ?D np) \<subseteq> set np" by (rule set_dropWhileD [THEN subsetI])
  have pf: "partition_on (cp CHR ''#'') (dropWhile ?D np @ q) = (dropWhile ?D np @ q, False, [])"
    using np(2) q(2) dn by (intro partition_on_absent) auto
  have pq: "partition_on (cp CHR ''?'') (dropWhile ?D np @ q) = (dropWhile ?D np, q \<noteq> [], drop 1 q)"
    using np(1) q(1) dn by (intro partition_on_query) auto
  have t2: "take 2 ?rest = ustr ''//''" by simp
  have "urlsplit L ?u = (if \<not> bracket_check L (takeWhile ?D np) \<or> \<not> checknetloc L (takeWhile ?D np)
      then Inl ValueError
      else Inr \<lparr> scheme = s, netloc = takeWhile ?D np, path = dropWhile ?D np, params = [],
                 query = drop 1 q, fragment = [] \<rparr>)"
    unfolding urlsplit_def u1 u2 Let_def ss prod.case t2 using sn pf pq by simp
  then show ?thesis by simp
qed

lemma rebuilt_segment:
  assumes nl: "\<forall>c \<in> set nl. \<not> netloc_delim c"
    and pa: "cp CHR ''?'' \<notin> set pa" "cp CHR ''#'' \<notin> set pa"
    and seg: "cp CHR '';'' \<notin> set (takeWhile (\<lambda>c. c \<noteq> cp CHR ''/'') (rev pa))"
  shows "cp CHR '';'' \<notin> set (takeWhile (\<lambda>c. c \<noteq> cp CHR ''/'')
           (rev (dropWhile (\<lambda>c. \<not> netloc_delim c) (nl @ pa))))"
proof -
  let ?D = "\<lambda>c. \<not> netloc_delim c"
  let ?d = "dropWhile ?D pa"
  have e: "dropWhile ?D (nl @ pa) = ?d"
    using nl by (intro dropWhile_append2) auto
  show ?thesis
  proof (cases "?d = []")
    case True
    show ?thesis unfolding e True by simp
  next
    case False
    then have "\<not> ?D (hd ?d)" by (rule hd_dropWhile)
    moreover have "hd ?d \<in> set pa"
      using False by (meson hd_in_set set_dropWhileD)
    ultimately have "hd ?d = cp CHR ''/''"
      using pa by (auto simp: netloc_delim_def)
    with False have m: "cp CHR ''/'' \<in> set ?d"
      by (metis hd_in_set)
    have "takeWhile (\<lambda>c. c \<noteq> cp CHR ''/'') (rev (takeWhile ?D pa @ ?d))
       = takeWhile (\<lambda>c. c \<noteq> cp CHR ''/'') (rev ?d)"
      using m by (rule last_segment_append)
    then have "takeWhile (\<lambda>c. c \<noteq> cp CHR ''/'') (rev ?d)
       = takeWhile (\<lambda>c. c \<noteq> cp CHR ''/'') (rev pa)"
      by (simp only: takeWhile_dropWhile_id)
    with seg show ?thesis unfolding e by simp
  qed
qed

lemma urlparse_rebuilt:
  assumes sch: "s \<noteq> []" "ascii_alpha (hd s)" "list_all scheme_char s" "map ascii_lower s = s"
    and np: "cp CHR ''?'' \<notin> set np" "cp CHR ''#'' \<notin> set np"
    and q: "q = [] \<or> hd q = cp CHR ''?''" "cp CHR ''#'' \<notin> set q"
    and ctl: "\<forall>c \<in> set (np @ q). c \<noteq> 9 \<and> c \<noteq> 13 \<and> c \<noteq> 10"
    and seg: "s \<in> set uses_params \<Longrightarrow> cp CHR '';'' \<notin> set (takeWhile (\<lambda>c. c \<noteq> cp CHR ''/'')
           (rev (dropWhile (\<lambda>c. \<not> netloc_delim c) np)))"
  shows "urlparse L (s @ ustr ''://'' @ np @ q) = Inl ValueError \<or>
     (\<exists>p. urlparse L (s @ ustr ''://'' @ np @ q) = Inr p \<and>
          base_url p = s @ ustr ''://'' @ np \<and> query p = drop 1 q)"
proof -
  let ?D = "\<lambda>c. \<not> netloc_delim c"
  let ?u = "s @ ustr ''://'' @ np @ q"
  let ?r = "\<lparr> scheme = s, netloc = takeWhile ?D np, path = dropWhile ?D np, params = [],
              query = drop 1 q, fragment = [] \<rparr>"
  note us = urlsplit_rebuilt [OF sch np q ctl, of L]
  show ?thesis
  proof (cases "\<not> bracket_check L (takeWhile ?D np) \<or> \<not> checknetloc L (takeWhile ?D np)")
    case True
    with us have "urlsplit L ?u = Inl ValueError" by simp
    then show ?thesis by (simp add: urlparse_def)
  next
    case False
    with us have u: "urlsplit L ?u = Inr ?r" by simp
    have b: "base_url ?r = s @ ustr ''://'' @ np"
      by (simp add: base_url_def)
    show ?thesis
    proof (cases "s \<in> set uses_params \<and> cp CHR '';'' \<in> set (dropWhile ?D np)")
      case True
      then have "splitparams (dropWhile ?D np) = (dropWhile ?D np, [])"
        using seg by (intro splitparams_noop) simp
      with True u have "urlparse L ?u = Inr ?r"
        by (simp add: urlparse_def)
      with b show ?thesis by simp
    next
      case False
      with u have "urlparse L ?u = Inr ?r"
        by (auto simp: urlparse_def)
      with b show ?thesis by simp
    qed
  qed
qed

lemma clean_url_parse_failure:
  assumes "\<not> has_affiliate_marker r" "cp CHR ''%'' \<notin> set r" "urlparse L r = Inl e"
  shows "clean_url L r = r"
  using assms unwrap_no_marker [of r L] unquote_no_percent [of r L]
  by (simp add: clean_url_def clean_url_try_def clean_url_parts_def)

lemma clean_url_parts_plain:
  assumes "\<not> has_affiliate_marker r" "cp CHR ''%'' \<notin> set r" "urlparse L r = Inr p"
  shows "clean_url_parts L r = Inr (p, filter (essential L) (first_values (parse_qsl L (query p))))"
  using assms unwrap_no_marker [of r L] unquote_no_percent [of r L]
  by (simp add: clean_url_parts_def essential_params_parse_qs)

text \<open>
  C3, as the code has it. Let \<open>r\<close> be the result of \<open>clean_url\<close>. Cleaning \<open>r\<close> gives \<open>r\<close> again
  when \<open>r\<close> contains none of the three affiliate patterns and none of \<open>%\<close>, \<open>#\<close>, tab, line
  feed and carriage return and, in case the first call parsed its URL, the scheme it found
  is not empty, no kept key contains \<open>=\<close>, \<open>&\<close>, \<open>%\<close> or \<open>+\<close>, and no kept value is empty or
  contains \<open>&\<close>, \<open>%\<close> or \<open>+\<close>.
\<close>

theorem clean_url_idempotent_when:
  assumes marker: "\<not> has_affiliate_marker (clean_url L u)"
    and chars: "\<forall>c \<in> set (clean_url L u).
        c \<noteq> cp CHR ''%'' \<and> c \<noteq> cp CHR ''#'' \<and> c \<noteq> 9 \<and> c \<noteq> 10 \<and> c \<noteq> 13"
    and ok: "\<And>parsed ess. clean_url_parts L u = Inr (parsed, ess) \<Longrightarrow>
        scheme parsed \<noteq> [] \<and> list_all clean_field ess"
  shows "clean_url L (clean_url L u) = clean_url L u"
proof (cases "clean_url_parts L u")
  case (Inl ex)
  obtain e v where ex: "ex = (e, v)" by (cases ex)
  from Inl ex have r: "clean_url L u = v"
    by (simp add: clean_url_def clean_url_try_def)
  from chars r have pc: "cp CHR ''%'' \<notin> set v" by auto
  from clean_url_parts_Inl [of L u e v] Inl ex
  consider "v = u" | "urlparse L v = Inl ValueError" by auto
  then show ?thesis
  proof cases
    case 1
    with r show ?thesis by simp
  next
    case 2
    from marker pc 2 show ?thesis
      unfolding r by (intro clean_url_parse_failure) simp_all
  qed
next
  case (Inr pe)
  obtain parsed ess where pe: "pe = (parsed, ess)" by (cases pe)
  from Inr pe have parts: "clean_url_parts L u = Inr (parsed, ess)" by simp
  define s where "s = scheme parsed"
  define np where "np = netloc parsed @ path parsed"
  define q where "q = (if ess = [] then [] else ustr ''?'' @ param_str ess)"
  define r where "r = s @ ustr ''://'' @ np @ q"
  have r: "clean_url L u = r"
    using clean_url_success [OF parts] by (simp add: base_url_def r_def s_def np_def q_def)
  from clean_url_parts_Inr [OF parts] obtain u1 where
    up: "urlparse L (unquote L u1) = Inr parsed" and
    ess: "ess = filter (essential L) (first_values (parse_qsl L (query parsed)))"
    by blast
  note sh = urlparse_shape [OF up]
  from ok [OF parts] have sne: "s \<noteq> []" and cf: "list_all clean_field ess"
    by (simp_all add: s_def)
  from sh(3) sne have sch: "ascii_alpha (hd s)" "list_all scheme_char s" "map ascii_lower s = s"
    by (simp_all add: s_def)
  from chars have rc: "\<forall>c \<in> set r.
      c \<noteq> cp CHR ''%'' \<and> c \<noteq> cp CHR ''#'' \<and> c \<noteq> 9 \<and> c \<noteq> 10 \<and> c \<noteq> 13"
    unfolding r .
  have sub: "set np \<subseteq> set r" "set q \<subseteq> set r"
    by (auto simp: r_def)
  have np1: "cp CHR ''?'' \<notin> set np"
    using sh(1) sh(2) by (auto simp: netloc_delim_def np_def)
  have np2: "cp CHR ''#'' \<notin> set np"
    using rc sub(1) by blast
  have q1: "q = [] \<or> hd q = cp CHR ''?''" by (simp add: q_def)
  have q2: "cp CHR ''#'' \<notin> set q"
    using rc sub(2) by blast
  have ctl: "\<forall>c \<in> set (np @ q). c \<noteq> 9 \<and> c \<noteq> 13 \<and> c \<noteq> 10"
  proof
    fix c assume "c \<in> set (np @ q)"
    with sub have "c \<in> set r" by auto
    with rc show "c \<noteq> 9 \<and> c \<noteq> 13 \<and> c \<noteq> 10" by blast
  qed
  have ph: "cp CHR ''#'' \<notin> set (path parsed)"
    using np2 by (simp add: np_def)
  have seg: "cp CHR '';'' \<notin> set (takeWhile (\<lambda>c. c \<noteq> cp CHR ''/'')
           (rev (dropWhile (\<lambda>c. \<not> netloc_delim c) np)))" if "s \<in> set uses_params"
    unfolding np_def using sh(2) sh(1) ph sh(4) [OF that [unfolded s_def]]
    by (rule rebuilt_segment)
  have pc: "cp CHR ''%'' \<notin> set r"
    using rc by blast
  from marker have mk: "\<not> has_affiliate_marker r" unfolding r .
  have qd: "drop 1 q = param_str ess"
    by (simp add: q_def param_str_def)
  note rb = urlparse_rebuilt [OF sne sch np1 np2 q1 q2 ctl seg, of L, folded r_def, unfolded qd]
  have "clean_url L r = r"
  proof (cases "urlparse L r")
    case (Inl e)
    from mk pc Inl show ?thesis by (rule clean_url_parse_failure)
  next
    case (Inr p)
    with rb have bp: "base_url p = s @ ustr ''://'' @ np" and qp: "query p = param_str ess"
      by simp_all
    have d: "distinct (map fst ess)"
      by (subst ess) (simp add: distinct_map_filter first_values_distinct)
    have pq: "parse_qsl L (param_str ess) = ess"
      using cf by (rule parse_qsl_param_str)
    have fv: "first_values ess = ess"
      using d by (rule first_values_distinct_id)
    have fe: "filter (essential L) ess = ess"
      by (subst (1 2) ess) simp
    have "clean_url_parts L r = Inr (p, ess)"
      using clean_url_parts_plain [OF mk pc Inr] by (simp only: qp pq fv fe)
    from clean_url_success [OF this] have "clean_url L r = base_url p @ q"
      by (simp add: q_def)
    then show ?thesis by (simp only: bp r_def append_assoc)
  qed
  then show ?thesis unfolding r .
qed

theorem clean_url_idempotent_when_witness:
  "clean_url ascii_lib (clean_url ascii_lib
      (ustr ''https://www.example.com/product?utm_source=instagram&color=red&ref=abc''))
     = clean_url ascii_lib (ustr ''https://www.example.com/product?utm_source=instagram&color=red&ref=abc'') \<and>
   clean_url ascii_lib (ustr ''https://www.example.com/product?utm_source=instagram&color=red&ref=abc'')
     = ustr ''https://www.example.com/product?color=red''"
proof -
  let ?u = "ustr ''https://www.example.com/product?utm_source=instagram&color=red&ref=abc''"
  have v: "clean_url ascii_lib ?u = ustr ''https://www.example.com/product?color=red''"
    by code_simp
  have h: "clean_url_parts ascii_lib ?u =
     Inr (\<lparr> scheme = ustr ''https'', netloc = ustr ''www.example.com'', path = ustr ''/product'',
             params = [], query = ustr ''utm_source=instagram&color=red&ref=abc'', fragment = [] \<rparr>,
          [(ustr ''color'', ustr ''red'')])"
    by code_simp
  have "clean_url ascii_lib (clean_url ascii_lib ?u) = clean_url ascii_lib ?u"
  proof (rule clean_url_idempotent_when)
    show "\<not> has_affiliate_marker (clean_url ascii_lib ?u)"
      unfolding v by code_simp
    show "\<forall>c \<in> set (clean_url ascii_lib ?u).
        c \<noteq> cp CHR ''%'' \<and> c \<noteq> cp CHR ''#'' \<and> c \<noteq> 9 \<and> c \<noteq> 10 \<and> c \<noteq> 13"
      unfolding v by simp
    fix parsed ess
    assume "clean_url_parts ascii_lib ?u = Inr (parsed, ess)"
    with h have "parsed = \<lparr> scheme = ustr ''https'', netloc = ustr ''www.example.com'',
        path = ustr ''/product'', params = [], query = ustr ''utm_source=instagram&color=red&ref=abc'',
        fragment = [] \<rparr>" "ess = [(ustr ''color'', ustr ''red'')]"
      by simp_all
    then show "scheme parsed \<noteq> [] \<and> list_all clean_field ess"
      by (simp add: clean_field_def)
  qed
  with v show ?thesis by simp
qed


text \<open>
  C3, as it is stated, fails: a URL without a scheme gets the prefix \<open>://\<close> at every call,
  and a doubly encoded path is decoded once more at every call.
\<close>

theorem clean_url_not_idempotent:
  "clean_url ascii_lib (ustr ''example.com/product'') = ustr ''://example.com/product'' \<and>
   clean_url ascii_lib (ustr ''://example.com/product'') = ustr ''://://example.com/product'' \<and>
   clean_url ascii_lib (ustr ''https://store.example.com/a%2520b'') = ustr ''https://store.example.com/a%20b'' \<and>
   clean_url ascii_lib (ustr ''https://store.example.com/a%20b'') = ustr ''https://store.example.com/a b''"
  by code_simp


end
